theory Spec2Isabelle
  imports Main "HOL-Library.Word"
begin

unbundle bit_operations_syntax

section \<open>Data model\<close>

text \<open>
  The decoder of package \<open>codec\<close> works on a \<open>Buffer\<close>: a byte slice and a read
  position of Go type \<open>int\<close>. Bytes are \<open>8 word\<close>, \<open>uint64\<close> is \<open>64 word\<close>,
  \<open>int32\<close> is \<open>32 word\<close>. Go's \<open>int\<close> is taken at its 64-bit width and modelled as a
  mathematical integer; every sum that the source guards against overflow
  (\<open>i < 0\<close>, \<open>end < cb.index\<close>) goes through \<open>go_int\<close>, which wraps it into the
  two's complement range. Increments of a position that is below a slice length are
  written without the wrap-around: a slice length never exceeds the largest \<open>int\<close>.
\<close>

type_synonym byte = "8 word"
type_synonym uint64 = "64 word"
type_synonym int32 = "32 word"

definition go_int :: "int \<Rightarrow> int" where
  "go_int x = (x + 2 ^ 63) mod 2 ^ 64 - 2 ^ 63"

text \<open>
  Modelled from the spec: the declaration of \<open>Buffer\<close> is not part of the sources at
  hand. The spec gives it a borrowed byte sequence and an integer position; the field
  names \<open>buf\<close> and \<open>index\<close> are those the methods use.
\<close>

record Buffer =
  buf :: "byte list"
  index :: int

text \<open>
  Modelled from the spec: \<open>WireType\<close> and its constants are declared outside the
  sources at hand. The spec fixes the enumeration Varint=0, Fixed64=1, Bytes=2,
  StartGroup=3, EndGroup=4, Fixed32=5; the low three bits of a tag can also hold 6 and
  7, so the type is the underlying small integer.
\<close>

type_synonym WireType = "8 word"

abbreviation (input) WireVarint :: WireType where "WireVarint \<equiv> 0"
abbreviation (input) WireFixed64 :: WireType where "WireFixed64 \<equiv> 1"
abbreviation (input) WireBytes :: WireType where "WireBytes \<equiv> 2"
abbreviation (input) WireStartGroup :: WireType where "WireStartGroup \<equiv> 3"
abbreviation (input) WireEndGroup :: WireType where "WireEndGroup \<equiv> 4"
abbreviation (input) WireFixed32 :: WireType where "WireFixed32 \<equiv> 5"

text \<open>
  Modelled from the spec: \<open>FieldType\<close> is declared outside the sources at hand. The
  constructors are the constants that \<open>PackedRepeatedEach\<close> names;
  \<open>FieldType_other\<close> stands for every remaining value of the underlying integer.
\<close>

datatype FieldType =
    FieldType_INT32 | FieldType_INT64 | FieldType_UINT32 | FieldType_UINT64
  | FieldType_SINT32 | FieldType_SINT64 | FieldType_BOOL | FieldType_ENUM
  | FieldType_FIXED64 | FieldType_SFIXED64 | FieldType_DOUBLE
  | FieldType_FIXED32 | FieldType_SFIXED32 | FieldType_FLOAT
  | FieldType_STRING | FieldType_MESSAGE | FieldType_BYTES
  | FieldType_other nat

text \<open>
  Errors are values. The sentinel errors keep their Go names; every \<open>fmt.Errorf\<close> of
  the source is a constructor that keeps what the format prints. A run-time panic of an
  out-of-range index is the value \<open>PanicIndexOutOfRange\<close>: it can only come from a
  cursor whose position is negative, which no operation produces.
\<close>

datatype error =
    io_EOF
  | io_ErrUnexpectedEOF
  | ErrOverflow
  | ErrBadWireType
  | ErrTagOutOfRange uint64
  | ErrBadByteLength int
  | PanicIndexOutOfRange
  | ErrDecodingVarint error
  | ErrDecodingFixed32 error
  | ErrDecodingFixed64 error
  | ErrDecodingRawBytes error
  | ErrGroupsNotSupported WireType
  | ErrUnknownWireType WireType
  | ErrMessageEachReadingValue error
  | ErrPackedRepeatedEachReadingValue error
  | ErrUnknownFieldType FieldType
  | ErrCallback nat

record Value =
  WireType :: WireType
  Number :: uint64
  Bytes :: "byte list"

section \<open>Primitive decoders (decode.go)\<close>

text \<open>
  The loop of \<open>DecodeVarint\<close>: \<open>shift\<close> runs over 0, 7, ..., 63; \<open>i\<close> is the local
  read position and \<open>x\<close> the named result, returned as accumulated so far when the
  loop fails.
\<close>

function DecodeVarint_loop ::
  "Buffer \<Rightarrow> nat \<Rightarrow> int \<Rightarrow> uint64 \<Rightarrow> (uint64 \<times> error option) \<times> Buffer" where
  "DecodeVarint_loop cb shift i x =
     (if shift < 64 then
        (if i \<ge> int (length (buf cb)) then ((x, Some io_ErrUnexpectedEOF), cb)
         else if i < 0 then ((x, Some PanicIndexOutOfRange), cb)
         else
           (let b = buf cb ! nat i;
                i' = i + 1;
                x' = x OR push_bit shift (ucast b AND 0x7F)
            in if b < 0x80 then ((x', None), cb\<lparr>index := i'\<rparr>)
               else DecodeVarint_loop cb (shift + 7) i' x'))
      else ((x, Some ErrOverflow), cb))"
  by pat_completeness auto
termination
  by (relation "measure (\<lambda>(cb, shift, i, x). 64 - shift)") auto

definition DecodeVarint :: "Buffer \<Rightarrow> (uint64 \<times> error option) \<times> Buffer" where
  "DecodeVarint cb = DecodeVarint_loop cb 0 (index cb) 0"

definition DecodeTagAndWireType ::
  "Buffer \<Rightarrow> (int32 \<times> WireType \<times> error option) \<times> Buffer" where
  "DecodeTagAndWireType cb =
     (case DecodeVarint cb of
        ((v, Some err), cb') \<Rightarrow> ((0, 0, Some err), cb')
      | ((v, None), cb') \<Rightarrow>
          (let wireType = ucast (v AND 7);
               v' = drop_bit 3 v
           in if v' > 0x7FFFFFFF then ((0, wireType, Some (ErrTagOutOfRange v')), cb')
              else ((ucast v', wireType, None), cb')))"

definition DecodeFixed64 :: "Buffer \<Rightarrow> (uint64 \<times> error option) \<times> Buffer" where
  "DecodeFixed64 cb =
     (let i = go_int (index cb + 8) in
      if i < 0 \<or> i > int (length (buf cb)) then ((0, Some io_ErrUnexpectedEOF), cb)
      else if i - 8 < 0 then ((0, Some PanicIndexOutOfRange), cb\<lparr>index := i\<rparr>)
      else
        (let b = (\<lambda>k. (ucast (buf cb ! nat (i - k)) :: uint64));
             x = b 8 OR push_bit 8 (b 7) OR push_bit 16 (b 6) OR push_bit 24 (b 5)
                 OR push_bit 32 (b 4) OR push_bit 40 (b 3) OR push_bit 48 (b 2)
                 OR push_bit 56 (b 1)
         in ((x, None), cb\<lparr>index := i\<rparr>)))"

definition DecodeFixed32 :: "Buffer \<Rightarrow> (uint64 \<times> error option) \<times> Buffer" where
  "DecodeFixed32 cb =
     (let i = go_int (index cb + 4) in
      if i < 0 \<or> i > int (length (buf cb)) then ((0, Some io_ErrUnexpectedEOF), cb)
      else if i - 4 < 0 then ((0, Some PanicIndexOutOfRange), cb\<lparr>index := i\<rparr>)
      else
        (let b = (\<lambda>k. (ucast (buf cb ! nat (i - k)) :: uint64));
             x = b 4 OR push_bit 8 (b 3) OR push_bit 16 (b 2) OR push_bit 24 (b 1)
         in ((x, None), cb\<lparr>index := i\<rparr>)))"

definition DecodeZigZag32 :: "uint64 \<Rightarrow> int32" where
  "DecodeZigZag32 v =
     drop_bit 1 (ucast v :: 32 word)
       XOR signed_drop_bit 31 (push_bit 31 (ucast (v AND 1) :: 32 word))"

definition DecodeZigZag64 :: "uint64 \<Rightarrow> 64 word" where
  "DecodeZigZag64 v = drop_bit 1 v XOR signed_drop_bit 63 (push_bit 63 (v AND 1))"

text \<open>
  A slice expression \<open>s[lo:hi]\<close> and the built-in \<open>copy(dst, src)\<close>, which copies as
  many bytes as the shorter of the two holds and leaves the rest of \<open>dst\<close>.
\<close>

definition slice :: "byte list \<Rightarrow> int \<Rightarrow> int \<Rightarrow> byte list" where
  "slice s lo hi = take (nat (hi - lo)) (drop (nat lo) s)"

definition go_copy :: "byte list \<Rightarrow> byte list \<Rightarrow> byte list" where
  "go_copy dst src = take (length dst) src @ drop (length src) dst"

definition DecodeRawBytes :: "Buffer \<Rightarrow> bool \<Rightarrow> (byte list \<times> error option) \<times> Buffer" where
  "DecodeRawBytes cb alloc =
     (case DecodeVarint cb of
        ((n, Some err), cb') \<Rightarrow> (([], Some err), cb')
      | ((n, None), cb') \<Rightarrow>
          (let nb = sint n in
           if nb < 0 then (([], Some (ErrBadByteLength nb)), cb')
           else
             (let end = go_int (index cb' + nb) in
              if end < index cb' \<or> end > int (length (buf cb'))
              then (([], Some io_ErrUnexpectedEOF), cb')
              else if \<not> alloc
              then ((slice (buf cb') (index cb') end, None), cb'\<lparr>index := end\<rparr>)
              else ((go_copy (replicate (nat nb) 0) (drop (nat (index cb')) (buf cb')), None),
                    cb'\<lparr>index := end\<rparr>))))"

section \<open>Facts about the primitive decoders\<close>

declare DecodeVarint_loop.simps [simp del]

lemma DecodeVarint_loop_induct [case_names step]:
  fixes P :: "Buffer \<Rightarrow> nat \<Rightarrow> int \<Rightarrow> uint64 \<Rightarrow> bool"
  assumes "\<And>cb shift i x.
     (shift < 64 \<Longrightarrow> \<not> i \<ge> int (length (buf cb)) \<Longrightarrow> \<not> i < 0 \<Longrightarrow>
      \<not> buf cb ! nat i < 0x80 \<Longrightarrow>
        P cb (shift + 7) (i + 1) (x OR push_bit shift (ucast (buf cb ! nat i) AND 0x7F)))
     \<Longrightarrow> P cb shift i x"
  shows "P cb shift i x"
  apply (induction cb shift i x rule: DecodeVarint_loop.induct)
  apply (rule assms)
  apply blast
  done

lemma DecodeVarint_loop_unfold:
  "DecodeVarint_loop cb shift i x =
     (if shift < 64 then
        (if i \<ge> int (length (buf cb)) then ((x, Some io_ErrUnexpectedEOF), cb)
         else if i < 0 then ((x, Some PanicIndexOutOfRange), cb)
         else if buf cb ! nat i < 0x80
         then ((x OR push_bit shift (ucast (buf cb ! nat i) AND 0x7F), None),
               cb\<lparr>index := i + 1\<rparr>)
         else DecodeVarint_loop cb (shift + 7) (i + 1)
                (x OR push_bit shift (ucast (buf cb ! nat i) AND 0x7F)))
      else ((x, Some ErrOverflow), cb))"
  by (subst DecodeVarint_loop.simps) (simp add: Let_def)

lemma DecodeVarint_loop_buf:
  "buf (snd (DecodeVarint_loop cb shift i x)) = buf cb"
  by (induction cb shift i x rule: DecodeVarint_loop_induct)
     (subst DecodeVarint_loop_unfold, simp)

lemma DecodeVarint_loop_err:
  "snd (fst (DecodeVarint_loop cb shift i x)) \<noteq> None \<Longrightarrow>
   snd (DecodeVarint_loop cb shift i x) = cb"
proof (induction cb shift i x rule: DecodeVarint_loop_induct)
  case (step cb shift i x)
  then show ?case
    by (subst DecodeVarint_loop_unfold, subst (asm) (2) DecodeVarint_loop_unfold)
       (simp split: if_splits)
qed

lemma DecodeVarint_loop_ok:
  "snd (fst (DecodeVarint_loop cb shift i x)) = None \<Longrightarrow>
   0 \<le> i \<and> i < index (snd (DecodeVarint_loop cb shift i x)) \<and>
   index (snd (DecodeVarint_loop cb shift i x)) \<le> int (length (buf cb))"
proof (induction cb shift i x rule: DecodeVarint_loop_induct)
  case (step cb shift i x)
  show ?case
  proof (cases "shift < 64 \<and> \<not> i \<ge> int (length (buf cb)) \<and> \<not> i < 0
                \<and> \<not> buf cb ! nat i < 0x80")
    case True
    with step.prems have "snd (fst (DecodeVarint_loop cb (shift + 7) (i + 1)
        (x OR push_bit shift (ucast (buf cb ! nat i) AND 0x7F)))) = None"
      by (subst (asm) DecodeVarint_loop_unfold) simp
    with True step.IH show ?thesis
      by (subst DecodeVarint_loop_unfold, subst DecodeVarint_loop_unfold) force
  next
    case False
    with step.prems show ?thesis
      by (subst DecodeVarint_loop_unfold, subst DecodeVarint_loop_unfold,
          subst (asm) DecodeVarint_loop_unfold)
         (auto split: if_splits)
  qed
qed

lemma DecodeVarint_buf: "buf (snd (DecodeVarint cb)) = buf cb"
  by (simp add: DecodeVarint_def DecodeVarint_loop_buf)

lemma DecodeVarint_err:
  "DecodeVarint cb = ((x, Some e), cb') \<Longrightarrow> cb' = cb"
  using DecodeVarint_loop_err [of cb 0 "index cb" 0] by (simp add: DecodeVarint_def)

lemma DecodeVarint_ok:
  "DecodeVarint cb = ((x, None), cb') \<Longrightarrow>
   0 \<le> index cb \<and> index cb < index cb' \<and> index cb' \<le> int (length (buf cb)) \<and> buf cb' = buf cb"
  using DecodeVarint_loop_ok [of cb 0 "index cb" 0] DecodeVarint_loop_buf [of cb 0 "index cb" 0]
  by (simp add: DecodeVarint_def)

lemma DecodeTagAndWireType_buf: "buf (snd (DecodeTagAndWireType cb)) = buf cb"
  using DecodeVarint_buf [of cb]
  by (auto simp add: DecodeTagAndWireType_def Let_def split: prod.splits option.splits)

lemma DecodeTagAndWireType_ok:
  "DecodeTagAndWireType cb = ((t, w, None), cb') \<Longrightarrow>
   0 \<le> index cb \<and> index cb < index cb' \<and> index cb' \<le> int (length (buf cb)) \<and> buf cb' = buf cb"
  by (auto simp add: DecodeTagAndWireType_def Let_def split: prod.splits option.splits if_splits
      dest: DecodeVarint_ok)

section \<open>The group scan (decode.go)\<close>

text \<open>
  Modelled from the spec: \<open>Skip\<close> and \<open>EOF\<close> are methods of \<open>Buffer\<close> that the
  sources at hand call and do not define. The spec: skip(n) advances the position by
  exactly n bytes if in bounds and fails with UnexpectedEndOfInput otherwise; atEnd() is
  true iff the position equals the length of the sequence. Advancing by a negative count
  is read as out of bounds.
\<close>

definition Skip :: "Buffer \<Rightarrow> int \<Rightarrow> error option \<times> Buffer" where
  "Skip cb n =
     (if 0 \<le> n \<and> index cb + n \<le> int (length (buf cb))
      then (None, cb\<lparr>index := index cb + n\<rparr>)
      else (Some io_ErrUnexpectedEOF, cb))"

definition EOF :: "Buffer \<Rightarrow> bool" where
  "EOF cb \<longleftrightarrow> index cb = int (length (buf cb))"

text \<open>
  The inner loop of the \<open>WireVarint\<close> case of \<open>findGroupEnd\<close>: it returns the position
  of the last byte of the variable-length integer.
\<close>

function findGroupEnd_varint :: "byte list \<Rightarrow> int \<Rightarrow> int \<Rightarrow> error + int" where
  "findGroupEnd_varint bs limit i =
     (if i \<ge> limit then Inl ErrOverflow
      else if i \<ge> int (length bs) then Inl io_ErrUnexpectedEOF
      else if i < 0 then Inl PanicIndexOutOfRange
      else if bs ! nat i AND 0x80 = 0 then Inr i
      else findGroupEnd_varint bs limit (i + 1))"
  by pat_completeness auto
termination
  by (relation "measure (\<lambda>(bs, limit, i). nat (limit - i))") auto

declare findGroupEnd_varint.simps [simp del]

lemma findGroupEnd_varint_ok:
  "findGroupEnd_varint bs limit i = Inr j \<Longrightarrow> i \<le> j \<and> j < int (length bs) \<and> 0 \<le> j"
  by (induction bs limit i rule: findGroupEnd_varint.induct)
     (subst (asm) (2) findGroupEnd_varint.simps, auto split: if_splits)

text \<open>
  The \<open>for\<close> loop of \<open>findGroupEnd\<close>. The Go code reaches itself through
  \<open>SkipGroup\<close> in the \<open>WireStartGroup\<close> case; here the body of \<open>SkipGroup\<close> (the
  nested scan, the deferred reset of the position to the nested start, then the
  assignment of \<open>groupEnd\<close>) is written in place, and
  \<open>findGroupEnd_loop_StartGroup\<close> below restates the case through \<open>SkipGroup\<close>.
  The result triple is the Go triple \<open>(groupEnd, dataEnd, err)\<close>.
\<close>

function findGroupEnd_loop :: "Buffer \<Rightarrow> (int \<times> int \<times> error option) \<times> Buffer" where
  "findGroupEnd_loop cb =
     (let fieldStart = index cb in
      case DecodeTagAndWireType cb of
        ((_, wireType, Some err), cb1) \<Rightarrow> ((0, 0, Some err), cb1)
      | ((_, wireType, None), cb1) \<Rightarrow>
          if wireType = WireFixed32 then
            (case Skip cb1 4 of
               (Some err, cb2) \<Rightarrow> ((0, 0, Some err), cb2)
             | (None, cb2) \<Rightarrow> findGroupEnd_loop cb2)
          else if wireType = WireFixed64 then
            (case Skip cb1 8 of
               (Some err, cb2) \<Rightarrow> ((0, 0, Some err), cb2)
             | (None, cb2) \<Rightarrow> findGroupEnd_loop cb2)
          else if wireType = WireVarint then
            (case findGroupEnd_varint (buf cb) (go_int (index cb1 + 10)) (index cb1) of
               Inl err \<Rightarrow> ((0, 0, Some err), cb1)
             | Inr i \<Rightarrow> findGroupEnd_loop (cb1\<lparr>index := i + 1\<rparr>))
          else if wireType = WireBytes then
            (case DecodeVarint cb1 of
               ((l, Some err), cb2) \<Rightarrow> ((0, 0, Some err), cb2)
             | ((l, None), cb2) \<Rightarrow>
                 (case Skip cb2 (sint l) of
                    (Some err, cb3) \<Rightarrow> ((0, 0, Some err), cb3)
                  | (None, cb3) \<Rightarrow> findGroupEnd_loop cb3))
          else if wireType = WireStartGroup then
            (case findGroupEnd_loop cb1 of
               ((groupEnd, _, Some err), cb2) \<Rightarrow> ((0, 0, Some err), cb2\<lparr>index := index cb1\<rparr>)
             | ((groupEnd, _, None), cb2) \<Rightarrow>
                 findGroupEnd_loop (cb2\<lparr>index := index cb1\<rparr>\<lparr>index := groupEnd\<rparr>))
          else if wireType = WireEndGroup then ((index cb1, fieldStart, None), cb1)
          else ((0, 0, Some ErrBadWireType), cb1))"
  by pat_completeness auto


lemma Skip_ok: "Skip cb n = (None, cb') \<Longrightarrow> index cb \<le> index cb' \<and> index cb' \<le> int (length (buf cb)) \<and> buf cb' = buf cb"
  by (auto simp: Skip_def split: if_splits)

lemma findGroupEnd_loop_dom_ok:
  "findGroupEnd_loop_dom cb \<Longrightarrow> findGroupEnd_loop cb = ((ge, de, None), cb') \<Longrightarrow>
   index cb < ge \<and> ge \<le> int (length (buf cb)) \<and> buf cb' = buf cb"
proof (induction arbitrary: ge de cb' rule: findGroupEnd_loop.pinduct)
  case (1 cb)
  note dom = 1(1) and res = 1(8)
  obtain t w e cb1 where tag: "DecodeTagAndWireType cb = ((t, w, e), cb1)"
    by (metis prod.exhaust)
  show ?case
  proof (cases e)
    case (Some err)
    with dom res tag show ?thesis
      by (simp add: findGroupEnd_loop.psimps)
  next
    case None
    note ok = DecodeTagAndWireType_ok [OF tag [unfolded None]]
    consider "w = 5" | "w = 1" | "w = 0" | "w = 2" | "w = 3" | "w = 4"
      | "w \<noteq> 5" "w \<noteq> 1" "w \<noteq> 0" "w \<noteq> 2" "w \<noteq> 3" "w \<noteq> 4" by auto
    then show ?thesis
    proof cases
      case 1
      with dom res tag None obtain cb2 where
        sk: "Skip cb1 4 = (None, cb2)" and r: "findGroupEnd_loop cb2 = ((ge, de, None), cb')"
        by (auto simp: findGroupEnd_loop.psimps split: prod.splits option.splits)
      from "1.IH"(1) [OF refl tag [symmetric] refl refl None 1 sk [symmetric] refl r]
        Skip_ok [OF sk] ok
      show ?thesis by simp
    next
      case 2
      with dom res tag None obtain cb2 where
        sk: "Skip cb1 8 = (None, cb2)" and r: "findGroupEnd_loop cb2 = ((ge, de, None), cb')"
        by (auto simp: findGroupEnd_loop.psimps split: prod.splits option.splits)
      from 2 have w: "w \<noteq> 5" by simp
      from "1.IH"(2) [OF refl tag [symmetric] refl refl None w 2 sk [symmetric] refl r]
        Skip_ok [OF sk] ok
      show ?thesis by simp
    next
      case 3
      with dom res tag None obtain i where
        sc: "findGroupEnd_varint (buf cb) (go_int (index cb1 + 10)) (index cb1) = Inr i"
        and r: "findGroupEnd_loop (cb1\<lparr>index := i + 1\<rparr>) = ((ge, de, None), cb')"
        by (auto simp: findGroupEnd_loop.psimps split: prod.splits option.splits sum.splits)
      from 3 have w: "w \<noteq> 5" "w \<noteq> 1" by simp_all
      from "1.IH"(3) [OF refl tag [symmetric] refl refl None w 3 sc r]
        findGroupEnd_varint_ok [OF sc] ok
      show ?thesis by simp
    next
      case 4
      with dom res tag None obtain l cb2 cb3 where
        dv: "DecodeVarint cb1 = ((l, None), cb2)" and sk: "Skip cb2 (sint l) = (None, cb3)"
        and r: "findGroupEnd_loop cb3 = ((ge, de, None), cb')"
        by (auto simp: findGroupEnd_loop.psimps split: prod.splits option.splits)
      from 4 have w: "w \<noteq> 5" "w \<noteq> 1" "w \<noteq> 0" by simp_all
      from "1.IH"(4) [OF refl tag [symmetric] refl refl None w 4 dv [symmetric] refl refl
          sk [symmetric] refl r]
        Skip_ok [OF sk] DecodeVarint_ok [OF dv] ok
      show ?thesis by simp
    next
      case 5
      with dom res tag None obtain g d cb2 where
        in1: "findGroupEnd_loop cb1 = ((g, d, None), cb2)"
        and r: "findGroupEnd_loop (cb2\<lparr>index := index cb1, index := g\<rparr>) = ((ge, de, None), cb')"
        by (auto simp: findGroupEnd_loop.psimps split: prod.splits option.splits)
      from 5 have w: "w \<noteq> 5" "w \<noteq> 1" "w \<noteq> 0" "w \<noteq> 2" by simp_all
      note a = "1.IH"(5) [OF refl tag [symmetric] refl refl None w 5 in1]
      note b = "1.IH"(6) [OF refl tag [symmetric] refl refl None w 5 in1 [symmetric] refl refl refl r]
      from a b ok show ?thesis by simp
    next
      case 6
      with dom res tag None ok show ?thesis
        by (auto simp: findGroupEnd_loop.psimps split: prod.splits option.splits)
    next
      case 7
      with dom res tag None ok show ?thesis
        by (auto simp: findGroupEnd_loop.psimps split: prod.splits option.splits)
    qed
  qed
qed

termination findGroupEnd_loop
  apply (relation "measure (\<lambda>cb. nat (int (length (buf cb)) - index cb))")
  apply simp
  apply (auto dest!: DecodeTagAndWireType_ok [OF sym] Skip_ok [OF sym] DecodeVarint_ok [OF sym] findGroupEnd_varint_ok findGroupEnd_loop_dom_ok [OF _ sym])
  done


declare findGroupEnd_loop.simps [simp del]

text \<open>
  \<open>findGroupEnd\<close> runs the loop and, by its deferred function, puts the position back
  to where it started, on every return.
\<close>

definition findGroupEnd :: "Buffer \<Rightarrow> (int \<times> int \<times> error option) \<times> Buffer" where
  "findGroupEnd cb =
     (let start = index cb;
          (r, cb') = findGroupEnd_loop cb
      in (r, cb'\<lparr>index := start\<rparr>))"

definition SkipGroup :: "Buffer \<Rightarrow> error option \<times> Buffer" where
  "SkipGroup cb =
     (case findGroupEnd cb of
        ((groupEnd, _, Some err), cb') \<Rightarrow> (Some err, cb')
      | ((groupEnd, _, None), cb') \<Rightarrow> (None, cb'\<lparr>index := groupEnd\<rparr>))"

definition ReadGroup :: "Buffer \<Rightarrow> bool \<Rightarrow> (byte list \<times> error option) \<times> Buffer" where
  "ReadGroup cb alloc =
     (case findGroupEnd cb of
        ((groupEnd, dataEnd, Some err), cb') \<Rightarrow> (([], Some err), cb')
      | ((groupEnd, dataEnd, None), cb') \<Rightarrow>
          (let results =
             (if \<not> alloc then slice (buf cb') (index cb') dataEnd
              else go_copy (replicate (nat (dataEnd - index cb')) 0)
                     (drop (nat (index cb')) (buf cb')))
           in ((results, None), cb'\<lparr>index := groupEnd\<rparr>)))"

section \<open>Field iteration (package molecule)\<close>

definition readValueFromBuffer ::
  "WireType \<Rightarrow> Buffer \<Rightarrow> Value \<Rightarrow> error option \<times> Buffer \<times> Value" where
  "readValueFromBuffer wireType buffer value0 =
     (let value = value0\<lparr>WireType := wireType\<rparr> in
      if wireType = WireVarint then
        (case DecodeVarint buffer of
           ((varint, Some err), b') \<Rightarrow> (Some (ErrDecodingVarint err), b', value)
         | ((varint, None), b') \<Rightarrow> (None, b', value\<lparr>Number := varint\<rparr>))
      else if wireType = WireFixed32 then
        (case DecodeFixed32 buffer of
           ((fixed32, Some err), b') \<Rightarrow> (Some (ErrDecodingFixed32 err), b', value)
         | ((fixed32, None), b') \<Rightarrow> (None, b', value\<lparr>Number := fixed32\<rparr>))
      else if wireType = WireFixed64 then
        (case DecodeFixed64 buffer of
           ((fixed64, Some err), b') \<Rightarrow> (Some (ErrDecodingFixed64 err), b', value)
         | ((fixed64, None), b') \<Rightarrow> (None, b', value\<lparr>Number := fixed64\<rparr>))
      else if wireType = WireBytes then
        (case DecodeRawBytes buffer False of
           ((b, Some err), b') \<Rightarrow> (Some (ErrDecodingRawBytes err), b', value)
         | ((b, None), b') \<Rightarrow> (None, b', value\<lparr>Bytes := b\<rparr>))
      else if wireType = WireStartGroup \<or> wireType = WireEndGroup then
        (Some (ErrGroupsNotSupported wireType), buffer, value)
      else (Some (ErrUnknownWireType wireType), buffer, value))"

text \<open>
  A callback is a function of the caller's own state \<open>'s\<close>: it returns the Go pair
  \<open>(bool, error)\<close> and the new state. It has no access to the cursor. The loops of
  the two iterators are recursive functions into \<open>option\<close>, \<open>None\<close> standing for a
  loop that does not return; \<open>value\<close> is the one \<open>Value\<close> that every step
  overwrites.
\<close>

type_synonym 's MessageEachFn = "'s \<Rightarrow> int32 \<Rightarrow> Value \<Rightarrow> (bool \<times> error option) \<times> 's"
type_synonym 's PackedRepeatedEachFn = "'s \<Rightarrow> Value \<Rightarrow> (bool \<times> error option) \<times> 's"

partial_function (option) MessageEach_loop ::
  "'s MessageEachFn \<Rightarrow> Buffer \<Rightarrow> Value \<Rightarrow> 's \<Rightarrow> (error option \<times> Buffer \<times> 's) option" where
  "MessageEach_loop fn buffer value s =
     (if \<not> EOF buffer then
        (case DecodeTagAndWireType buffer of
           ((fieldNum, wireType, err), b1) \<Rightarrow>
             if err = Some io_EOF then Some (None, b1, s)
             else
               (case readValueFromBuffer wireType b1 value of
                  (Some err', b2, value') \<Rightarrow> Some (Some (ErrMessageEachReadingValue err'), b2, s)
                | (None, b2, value') \<Rightarrow>
                    (case fn s fieldNum value' of
                       ((shouldContinue, err''), s') \<Rightarrow>
                         if err'' \<noteq> None \<or> \<not> shouldContinue then Some (err'', b2, s')
                         else MessageEach_loop fn b2 value' s')))
      else Some (None, buffer, s))"

definition MessageEach ::
  "Buffer \<Rightarrow> 's MessageEachFn \<Rightarrow> 's \<Rightarrow> (error option \<times> Buffer \<times> 's) option" where
  "MessageEach buffer fn s = MessageEach_loop fn buffer \<lparr>WireType = 0, Number = 0, Bytes = []\<rparr> s"

partial_function (option) PackedRepeatedEach_loop ::
  "WireType \<Rightarrow> 's PackedRepeatedEachFn \<Rightarrow> Buffer \<Rightarrow> Value \<Rightarrow> 's \<Rightarrow> (error option \<times> Buffer \<times> 's) option" where
  "PackedRepeatedEach_loop wireType fn buffer value s =
     (if \<not> EOF buffer then
        (case readValueFromBuffer wireType buffer value of
           (Some err, b', value') \<Rightarrow> Some (Some (ErrPackedRepeatedEachReadingValue err), b', s)
         | (None, b', value') \<Rightarrow>
             (case fn s value' of
                ((shouldContinue, err), s') \<Rightarrow>
                  if err \<noteq> None \<or> \<not> shouldContinue then Some (None, b', s')
                  else PackedRepeatedEach_loop wireType fn b' value' s'))
      else Some (None, buffer, s))"



declare MessageEach_loop.simps [code] PackedRepeatedEach_loop.simps [code]

section \<open>The encodings of the wire format\<close>

text \<open>
  The zig-zag mapping as the wire format states it:
  \<open>zigzag(n) = (n << 1) XOR (n arithmetic-shifted right by width - 1)\<close>.
\<close>

definition spec_zigzag32 :: "32 word \<Rightarrow> 32 word" where
  "spec_zigzag32 n = push_bit 1 n XOR signed_drop_bit 31 n"

definition spec_zigzag64 :: "64 word \<Rightarrow> 64 word" where
  "spec_zigzag64 n = push_bit 1 n XOR signed_drop_bit 63 n"

text \<open>
  The bytes that the cursor has not read yet, and the continuation bit of a byte of a
  variable-length integer.
\<close>

definition remaining :: "Buffer \<Rightarrow> byte list" where
  "remaining cb = drop (nat (index cb)) (buf cb)"

definition continuation :: "byte \<Rightarrow> bool" where
  "continuation b \<longleftrightarrow> b \<ge> 0x80"

text \<open>
  The invariant of the cursor, \<open>0 \<le> position \<le> length\<close>, and what an operation may do
  to a cursor: leave the bytes as they are and the position within the sequence.
\<close>

definition cursor_ok :: "Buffer \<Rightarrow> bool" where
  "cursor_ok cb \<longleftrightarrow> 0 \<le> index cb \<and> index cb \<le> int (length (buf cb))"

definition cursor_step :: "Buffer \<Rightarrow> Buffer \<Rightarrow> bool" where
  "cursor_step cb cb' \<longleftrightarrow>
     buf cb' = buf cb \<and> 0 \<le> index cb' \<and> index cb' \<le> int (length (buf cb'))"

text \<open>
  The canonical encoding of a variable-length integer, as the wire format states it:
  7-bit groups, low to high, the top bit of every byte but the last set. The decoders
  have no encoder in the sources; this one is the reference the round trips are stated
  against.
\<close>

function spec_EncodeVarint :: "uint64 \<Rightarrow> byte list" where
  "spec_EncodeVarint x =
     (if x \<ge> 0x80 then (ucast (x AND 0x7F) OR 0x80) # spec_EncodeVarint (drop_bit 7 x)
      else [ucast x])"
  by pat_completeness auto
termination
proof (relation "measure unat")
  show "wf (measure unat)" by simp
next
  fix x :: uint64 assume "128 \<le> x"
  then have "128 \<le> unat x" by (simp add: word_le_nat_alt)
  then have "unat x div 128 < unat x" by simp
  moreover have "unat (drop_bit 7 x) = unat x div 128"
    by (simp add: unat_drop_bit_eq drop_bit_eq_div unat_div)
  ultimately show "(drop_bit 7 x, x) \<in> measure unat"
    by (simp only: in_measure)
qed

declare spec_EncodeVarint.simps [simp del]

text \<open>
  A tag on the wire: the variable-length integer \<open>(fieldNumber << 3) | wireType\<close>.
\<close>

definition spec_EncodeTag :: "int32 \<Rightarrow> WireType \<Rightarrow> byte list" where
  "spec_EncodeTag fieldNumber wireType =
     spec_EncodeVarint (push_bit 3 (ucast fieldNumber) OR ucast wireType)"


definition record_fields :: "(int32 \<times> Value) list MessageEachFn" where
  "record_fields s fieldNum v = ((True, None), s @ [(fieldNum, v)])"

section \<open>Zig-zag decoding\<close>

lemma bit_times2:
  "bit (n * 2 :: 'a::len word) k \<longleftrightarrow> k \<noteq> 0 \<and> k < LENGTH('a) \<and> bit n (k - 1)"
  using bit_push_bit_iff [of 1 n k] by (auto simp: push_bit_eq_mult bit_simps)

lemma sign_mask64:
  "signed_drop_bit 63 (push_bit 63 (v AND 1)) = (if odd v then - 1 else (0 :: 64 word))"
  by (cases "odd v") (simp_all add: and_one_eq mod_2_eq_odd)

lemma sign_mask32:
  "signed_drop_bit 31 (push_bit 31 (v AND 1)) = (if odd v then - 1 else (0 :: 32 word))"
  by (cases "odd v") (simp_all add: and_one_eq mod_2_eq_odd)

lemma bit_spec_zigzag64:
  "j < 64 \<Longrightarrow> bit (spec_zigzag64 n) j \<longleftrightarrow> ((j \<noteq> 0 \<and> bit n (j - 1)) \<noteq> bit n 63)"
  by (auto simp add: spec_zigzag64_def bit_simps bit_times2 not_le)

lemma bit_spec_zigzag32:
  "j < 32 \<Longrightarrow> bit (spec_zigzag32 n) j \<longleftrightarrow> ((j \<noteq> 0 \<and> bit n (j - 1)) \<noteq> bit n 31)"
  by (auto simp add: spec_zigzag32_def bit_simps bit_times2 not_le)

lemma bit_DecodeZigZag64:
  "k < 64 \<Longrightarrow> bit (DecodeZigZag64 v) k \<longleftrightarrow> ((k < 63 \<and> bit v (Suc k)) \<noteq> bit v 0)"
  unfolding DecodeZigZag64_def sign_mask64
  by (auto simp add: bit_simps bit_0 not_le not_less dest: bit_imp_le_length)

lemma ucast_down_up: "(ucast (ucast z :: 64 word) :: 32 word) = z"
  by (rule bit_word_eqI) (simp add: bit_simps)

lemma ucast_and1: "(ucast ((ucast (z :: 32 word) :: 64 word) AND 1) :: 32 word) = z AND 1"
  by (rule bit_word_eqI) (auto simp add: bit_simps)

lemma DecodeZigZag32_ucast:
  "DecodeZigZag32 (ucast (z :: 32 word)) = drop_bit 1 z XOR (if odd z then - 1 else 0)"
  by (simp only: DecodeZigZag32_def ucast_down_up ucast_and1 sign_mask32)

lemma bit_DecodeZigZag32:
  "k < 32 \<Longrightarrow>
   bit (DecodeZigZag32 (ucast (z :: 32 word))) k \<longleftrightarrow> ((k < 31 \<and> bit z (Suc k)) \<noteq> bit z 0)"
  unfolding DecodeZigZag32_ucast
  by (auto simp add: bit_simps bit_0 not_le not_less dest: bit_imp_le_length)

lemma DecodeZigZag64_spec_zigzag64: "DecodeZigZag64 (spec_zigzag64 n) = n"
proof (rule bit_word_eqI)
  fix k assume "k < LENGTH(64)"
  then consider "k = 63" | "k < 63" by fastforce
  then show "bit (DecodeZigZag64 (spec_zigzag64 n)) k = bit n k"
    by cases (auto simp add: bit_DecodeZigZag64 bit_spec_zigzag64)
qed

lemma DecodeZigZag32_spec_zigzag32: "DecodeZigZag32 (ucast (spec_zigzag32 n)) = n"
proof (rule bit_word_eqI)
  fix k assume "k < LENGTH(32)"
  then consider "k = 31" | "k < 31" by fastforce
  then show "bit (DecodeZigZag32 (ucast (spec_zigzag32 n))) k = bit n k"
    by cases (auto simp add: bit_DecodeZigZag32 bit_spec_zigzag32)
qed

text \<open>
  Claim C7. For every signed integer \<open>n\<close> of the respective width, \<open>DecodeZigZag32\<close>
  and \<open>DecodeZigZag64\<close> applied to the zig-zag-mapped unsigned wire value of \<open>n\<close>
  return exactly \<open>n\<close>. The 32-bit wire value reaches \<open>DecodeZigZag32\<close> zero-extended
  to the \<open>uint64\<close> that the decoder hands out.
\<close>

theorem C7_zigzag_roundtrip:
  "DecodeZigZag32 (ucast (spec_zigzag32 n)) = n \<and> DecodeZigZag64 (spec_zigzag64 m) = m"
  by (simp add: DecodeZigZag32_spec_zigzag32 DecodeZigZag64_spec_zigzag64)

section \<open>Failures of the primitive decoders\<close>

lemma DecodeFixed64_err:
  "DecodeFixed64 cb = ((x, Some e), cb') \<Longrightarrow> e \<noteq> PanicIndexOutOfRange \<Longrightarrow> cb' = cb"
  by (auto simp: DecodeFixed64_def Let_def split: if_splits)

lemma DecodeFixed32_err:
  "DecodeFixed32 cb = ((x, Some e), cb') \<Longrightarrow> e \<noteq> PanicIndexOutOfRange \<Longrightarrow> cb' = cb"
  by (auto simp: DecodeFixed32_def Let_def split: if_splits)

lemma DecodeRawBytes_bounds_fail:
  assumes "DecodeVarint cb = ((n, None), cb1)"
    and "sint n < 0 \<or> go_int (index cb1 + sint n) < index cb1
         \<or> go_int (index cb1 + sint n) > int (length (buf cb1))"
  shows "\<exists>e. DecodeRawBytes cb alloc = (([], Some e), cb1)"
  using assms by (auto simp: DecodeRawBytes_def Let_def)

lemma DecodeVarint_loop_errors:
  "snd (fst (DecodeVarint_loop cb shift i x)) = Some e \<Longrightarrow>
   e = io_ErrUnexpectedEOF \<or> e = ErrOverflow \<or> e = PanicIndexOutOfRange"
proof (induction cb shift i x rule: DecodeVarint_loop_induct)
  case (step cb shift i x)
  then show ?case
    by (subst (asm) (2) DecodeVarint_loop_unfold) (auto split: if_splits)
qed

lemma DecodeVarint_errors:
  "DecodeVarint cb = ((x, Some e), cb') \<Longrightarrow>
   e = io_ErrUnexpectedEOF \<or> e = ErrOverflow \<or> e = PanicIndexOutOfRange"
  using DecodeVarint_loop_errors [of cb 0 "index cb" 0 e] by (simp add: DecodeVarint_def)

text \<open>
  Claim C10. Whenever \<open>DecodeVarint\<close>, \<open>DecodeFixed32\<close> or \<open>DecodeFixed64\<close> returns an
  error, the cursor is left as it was at entry. \<open>DecodeRawBytes\<close> is different: when
  the length prefix decodes and the length is negative or the bounds check fails, the
  error comes with the cursor already past the prefix.
\<close>

theorem C10_failed_decode_atomic:
  "(\<forall>x e cb'. DecodeVarint cb = ((x, Some e), cb') \<longrightarrow> cb' = cb) \<and>
   (\<forall>x e cb'. DecodeFixed32 cb = ((x, Some e), cb') \<longrightarrow> e \<noteq> PanicIndexOutOfRange \<longrightarrow> cb' = cb) \<and>
   (\<forall>x e cb'. DecodeFixed64 cb = ((x, Some e), cb') \<longrightarrow> e \<noteq> PanicIndexOutOfRange \<longrightarrow> cb' = cb) \<and>
   (\<forall>n cb1 alloc. DecodeVarint cb = ((n, None), cb1) \<longrightarrow>
      (sint n < 0 \<or> go_int (index cb1 + sint n) < index cb1
         \<or> go_int (index cb1 + sint n) > int (length (buf cb1))) \<longrightarrow>
      (\<exists>e. DecodeRawBytes cb alloc = (([], Some e), cb1)) \<and> index cb < index cb1)"
  using DecodeVarint_err DecodeFixed32_err DecodeFixed64_err DecodeRawBytes_bounds_fail DecodeVarint_ok
  by blast

text \<open>
  The witness: a truncated integer, two bytes where four or eight are needed, and the
  length prefix 5 with nothing behind it.
\<close>

theorem C10_witness:
  "DecodeVarint \<lparr>buf = [0x80], index = 0\<rparr>
     = ((0, Some io_ErrUnexpectedEOF), \<lparr>buf = [0x80], index = 0\<rparr>) \<and>
   DecodeFixed32 \<lparr>buf = [1, 2], index = 0\<rparr>
     = ((0, Some io_ErrUnexpectedEOF), \<lparr>buf = [1, 2], index = 0\<rparr>) \<and>
   DecodeFixed64 \<lparr>buf = [1, 2], index = 0\<rparr>
     = ((0, Some io_ErrUnexpectedEOF), \<lparr>buf = [1, 2], index = 0\<rparr>) \<and>
   DecodeVarint \<lparr>buf = [5], index = 0\<rparr> = ((5, None), \<lparr>buf = [5], index = 1\<rparr>) \<and>
   go_int (index \<lparr>buf = [5], index = 1\<rparr> + sint (5 :: uint64))
     > int (length (buf \<lparr>buf = [5 :: byte], index = 1\<rparr>)) \<and>
   (\<exists>e. DecodeRawBytes \<lparr>buf = [5], index = 0\<rparr> False
          = (([], Some e), \<lparr>buf = [5], index = 1\<rparr>)) \<and>
   index \<lparr>buf = [5 :: byte], index = 0\<rparr> < index \<lparr>buf = [5 :: byte], index = 1\<rparr>"
proof -
  have v1: "DecodeVarint \<lparr>buf = [0x80], index = 0\<rparr>
       = ((0, Some io_ErrUnexpectedEOF), \<lparr>buf = [0x80], index = 0\<rparr>)"
    by (simp add: DecodeVarint_def DecodeVarint_loop_unfold)
  have v2: "DecodeFixed32 \<lparr>buf = [1, 2], index = 0\<rparr>
       = ((0, Some io_ErrUnexpectedEOF), \<lparr>buf = [1, 2], index = 0\<rparr>)"
    by (simp add: DecodeFixed32_def go_int_def)
  have v3: "DecodeFixed64 \<lparr>buf = [1, 2], index = 0\<rparr>
       = ((0, Some io_ErrUnexpectedEOF), \<lparr>buf = [1, 2], index = 0\<rparr>)"
    by (simp add: DecodeFixed64_def go_int_def)
  have v4: "DecodeVarint \<lparr>buf = [5], index = 0\<rparr> = ((5, None), \<lparr>buf = [5], index = 1\<rparr>)"
    by (simp add: DecodeVarint_def DecodeVarint_loop_unfold)
  have v5: "go_int (index \<lparr>buf = [5], index = 1\<rparr> + sint (5 :: uint64))
     > int (length (buf \<lparr>buf = [5 :: byte], index = 1\<rparr>))"
    by (simp add: go_int_def)
  from C10_failed_decode_atomic [of "\<lparr>buf = [5], index = 0\<rparr>"] v4 v5
  have "(\<exists>e. DecodeRawBytes \<lparr>buf = [5], index = 0\<rparr> False
          = (([], Some e), \<lparr>buf = [5], index = 1\<rparr>)) \<and>
   index \<lparr>buf = [5 :: byte], index = 0\<rparr> < index \<lparr>buf = [5 :: byte], index = 1\<rparr>"
    by blast
  with v1 v2 v3 v4 v5 show ?thesis by blast
qed

text \<open>
  Claim C2, as stated, says that \<open>DecodeRawBytes\<close> fails with the bad-length error when
  the end offset lies past the sequence, and with \<open>io.ErrUnexpectedEOF\<close> only when the
  prefix itself is truncated. On the single byte 5 the prefix decodes to 5, the end
  offset 6 lies past the length 1, and the error is \<open>io.ErrUnexpectedEOF\<close>.
\<close>

theorem C2_counterexample:
  "DecodeVarint \<lparr>buf = [5], index = 0\<rparr> = ((5, None), \<lparr>buf = [5], index = 1\<rparr>) \<and>
   int (length [5 :: byte]) < 1 + sint (5 :: uint64) \<and>
   snd (fst (DecodeRawBytes \<lparr>buf = [5], index = 0\<rparr> False)) = Some io_ErrUnexpectedEOF \<and>
   snd (fst (DecodeRawBytes \<lparr>buf = [5], index = 0\<rparr> False)) \<noteq> Some (ErrBadByteLength 5)"
  by (simp add: DecodeRawBytes_def DecodeVarint_def DecodeVarint_loop_unfold go_int_def)

text \<open>
  Claim C2, amended. \<open>DecodeRawBytes\<close> fails with the bad-length error exactly when the
  length prefix decodes to a negative \<open>int\<close>; it fails with \<open>io.ErrUnexpectedEOF\<close>
  exactly when the prefix is truncated, or the prefix decodes to a non-negative length
  whose end offset overflows or lies past the length of the sequence.
\<close>

theorem C2_DecodeRawBytes_errors:
  "(snd (fst (DecodeRawBytes cb alloc)) = Some (ErrBadByteLength k) \<longleftrightarrow>
      (\<exists>n cb1. DecodeVarint cb = ((n, None), cb1) \<and> sint n < 0 \<and> k = sint n)) \<and>
   (snd (fst (DecodeRawBytes cb alloc)) = Some io_ErrUnexpectedEOF \<longleftrightarrow>
      snd (fst (DecodeVarint cb)) = Some io_ErrUnexpectedEOF \<or>
      (\<exists>n cb1. DecodeVarint cb = ((n, None), cb1) \<and> 0 \<le> sint n \<and>
         (go_int (index cb1 + sint n) < index cb1 \<or>
          go_int (index cb1 + sint n) > int (length (buf cb)))))"
proof -
  obtain n e cb1 where dv: "DecodeVarint cb = ((n, e), cb1)"
    by (metis prod.exhaust)
  have b: "buf cb1 = buf cb"
    using DecodeVarint_buf [of cb] dv by simp
  show ?thesis
  proof (cases e)
    case (Some err)
    with dv DecodeVarint_errors [of cb n err cb1] show ?thesis
      by (auto simp: DecodeRawBytes_def)
  next
    case None
    with dv b show ?thesis
      by (auto simp: DecodeRawBytes_def Let_def)
  qed
qed

section \<open>Overlong and truncated variable-length integers\<close>

lemma DecodeVarint_loop_overflow:
  "(\<And>k. i \<le> k \<Longrightarrow> k < i + int ((70 - shift) div 7) \<Longrightarrow>
         0 \<le> k \<and> k < int (length (buf cb)) \<and> buf cb ! nat k \<ge> 0x80) \<Longrightarrow>
   snd (fst (DecodeVarint_loop cb shift i x)) = Some ErrOverflow"
proof (induction cb shift i x rule: DecodeVarint_loop_induct)
  case (step cb shift i x)
  show ?case
  proof (cases "shift < 64")
    case False
    then show ?thesis by (subst DecodeVarint_loop_unfold) simp
  next
    case True
    then have c: "(70 - shift) div 7 = Suc ((70 - (shift + 7)) div 7)" by arith
    from step.prems [of i] c have i: "0 \<le> i" "i < int (length (buf cb))" "buf cb ! nat i \<ge> 0x80"
      by auto
    have "snd (fst (DecodeVarint_loop cb (shift + 7) (i + 1)
        (x OR push_bit shift (ucast (buf cb ! nat i) AND 0x7F)))) = Some ErrOverflow"
    proof (rule step.IH)
      fix k assume "i + 1 \<le> k" "k < i + 1 + int ((70 - (shift + 7)) div 7)"
      with c show "0 \<le> k \<and> k < int (length (buf cb)) \<and> 128 \<le> buf cb ! nat k"
        using step.prems [of k] by simp
    qed (use True i in \<open>simp_all add: not_less\<close>)
    with True i show ?thesis
      by (subst DecodeVarint_loop_unfold) (simp add: not_less)
  qed
qed

lemma DecodeVarint_loop_truncated:
  "0 \<le> i \<Longrightarrow> i \<le> int (length (buf cb)) \<Longrightarrow>
   int (length (buf cb)) - i < int ((70 - shift) div 7) \<Longrightarrow>
   (\<And>k. i \<le> k \<Longrightarrow> k < int (length (buf cb)) \<Longrightarrow> buf cb ! nat k \<ge> 0x80) \<Longrightarrow>
   snd (fst (DecodeVarint_loop cb shift i x)) = Some io_ErrUnexpectedEOF"
proof (induction cb shift i x rule: DecodeVarint_loop_induct)
  case (step cb shift i x)
  from step.prems(2,3) have s: "shift < 64" by (cases "shift < 64") auto
  then have c: "(70 - shift) div 7 = Suc ((70 - (shift + 7)) div 7)" by arith
  show ?case
  proof (cases "i = int (length (buf cb))")
    case True
    with s show ?thesis by (subst DecodeVarint_loop_unfold) simp
  next
    case False
    with step.prems have i: "i < int (length (buf cb))" "buf cb ! nat i \<ge> 0x80" by auto
    have "snd (fst (DecodeVarint_loop cb (shift + 7) (i + 1)
        (x OR push_bit shift (ucast (buf cb ! nat i) AND 0x7F)))) = Some io_ErrUnexpectedEOF"
      using step.prems i s c by (intro step.IH) (auto simp: not_less)
    with s i step.prems(1) show ?thesis
      by (subst DecodeVarint_loop_unfold) (simp add: not_less)
  qed
qed

lemma remaining_nth:
  "0 \<le> index cb \<Longrightarrow> index cb \<le> k \<Longrightarrow> k < int (length (buf cb)) \<Longrightarrow>
   buf cb ! nat k = remaining cb ! nat (k - index cb)"
  by (simp add: remaining_def nat_diff_distrib)

text \<open>
  Claim C5. \<open>DecodeVarint\<close> fails with \<open>ErrOverflow\<close> on every input whose next ten
  bytes all have the continuation bit set, and with \<open>io.ErrUnexpectedEOF\<close> on every
  input that ends, after fewer than ten bytes, before a byte with the top bit clear.
\<close>

theorem C5_DecodeVarint_failures:
  assumes "0 \<le> index cb"
  shows "(length (remaining cb) \<ge> 10 \<and> list_all continuation (take 10 (remaining cb))
            \<longrightarrow> snd (fst (DecodeVarint cb)) = Some ErrOverflow) \<and>
         (length (remaining cb) < 10 \<and> list_all continuation (remaining cb)
            \<longrightarrow> snd (fst (DecodeVarint cb)) = Some io_ErrUnexpectedEOF)"
proof (intro conjI impI)
  assume a: "length (remaining cb) \<ge> 10 \<and> list_all continuation (take 10 (remaining cb))"
  then have len: "index cb + 10 \<le> int (length (buf cb))"
    using assms by (simp add: remaining_def) linarith
  have "\<And>k. index cb \<le> k \<Longrightarrow> k < index cb + int ((70 - 0) div 7) \<Longrightarrow>
         0 \<le> k \<and> k < int (length (buf cb)) \<and> buf cb ! nat k \<ge> 0x80"
  proof -
    fix k assume k: "index cb \<le> k" "k < index cb + int ((70 - 0) div 7)"
    then have m: "nat (k - index cb) < 10" by simp
    with a have "continuation (take 10 (remaining cb) ! nat (k - index cb))"
      by (simp add: list_all_length)
    with m have "continuation (remaining cb ! nat (k - index cb))" by simp
    with k len assms show "0 \<le> k \<and> k < int (length (buf cb)) \<and> buf cb ! nat k \<ge> 0x80"
      by (simp add: remaining_nth continuation_def)
  qed
  then show "snd (fst (DecodeVarint cb)) = Some ErrOverflow"
    unfolding DecodeVarint_def by (rule DecodeVarint_loop_overflow)
next
  assume a: "length (remaining cb) < 10 \<and> list_all continuation (remaining cb)"
  show "snd (fst (DecodeVarint cb)) = Some io_ErrUnexpectedEOF"
  proof (cases "index cb \<le> int (length (buf cb))")
    case False
    then show ?thesis
      by (simp add: DecodeVarint_def DecodeVarint_loop_unfold)
  next
    case True
    have "\<And>k. index cb \<le> k \<Longrightarrow> k < int (length (buf cb)) \<Longrightarrow> buf cb ! nat k \<ge> 0x80"
    proof -
      fix k assume k: "index cb \<le> k" "k < int (length (buf cb))"
      with assms have "nat (k - index cb) < length (remaining cb)"
        by (simp add: remaining_def)
      with a have "continuation (remaining cb ! nat (k - index cb))"
        by (simp add: list_all_length)
      with k assms show "buf cb ! nat k \<ge> 0x80"
        by (simp add: remaining_nth continuation_def)
    qed
    moreover from a assms True have "int (length (buf cb)) - index cb < int ((70 - 0) div 7)"
      by (simp add: remaining_def) linarith
    ultimately show ?thesis
      unfolding DecodeVarint_def using assms True
      by (intro DecodeVarint_loop_truncated) auto
  qed
qed

text \<open>
  The witness: ten bytes \<open>0xFF\<close> before a terminator, and a cursor at offset 1 of
  three bytes whose last two have the continuation bit set.
\<close>

theorem C5_witness:
  "0 \<le> index \<lparr>buf = [0xFF, 0xFF, 0xFF, 0xFF, 0xFF, 0xFF, 0xFF, 0xFF, 0xFF, 0xFF, 0x01], index = 0\<rparr> \<and>
   length (remaining \<lparr>buf = [0xFF, 0xFF, 0xFF, 0xFF, 0xFF, 0xFF, 0xFF, 0xFF, 0xFF, 0xFF, 0x01], index = 0\<rparr>) \<ge> 10 \<and>
   list_all continuation (take 10 (remaining \<lparr>buf = [0xFF, 0xFF, 0xFF, 0xFF, 0xFF, 0xFF, 0xFF, 0xFF, 0xFF, 0xFF, 0x01], index = 0\<rparr>)) \<and>
   snd (fst (DecodeVarint \<lparr>buf = [0xFF, 0xFF, 0xFF, 0xFF, 0xFF, 0xFF, 0xFF, 0xFF, 0xFF, 0xFF, 0x01], index = 0\<rparr>)) = Some ErrOverflow \<and>
   0 \<le> index \<lparr>buf = [0x08, 0x96, 0x81], index = 1\<rparr> \<and>
   length (remaining \<lparr>buf = [0x08, 0x96, 0x81], index = 1\<rparr>) < 10 \<and>
   list_all continuation (remaining \<lparr>buf = [0x08, 0x96, 0x81], index = 1\<rparr>) \<and>
   snd (fst (DecodeVarint \<lparr>buf = [0x08, 0x96, 0x81], index = 1\<rparr>)) = Some io_ErrUnexpectedEOF"
  using C5_DecodeVarint_failures [of "\<lparr>buf = [0xFF, 0xFF, 0xFF, 0xFF, 0xFF, 0xFF, 0xFF, 0xFF, 0xFF, 0xFF, 0x01], index = 0\<rparr>"]
        C5_DecodeVarint_failures [of "\<lparr>buf = [0x08, 0x96, 0x81], index = 1\<rparr>"]
  by (simp add: remaining_def continuation_def)

section \<open>What the group scan returns\<close>

lemma Buffer_same_buf: "buf a = buf b \<Longrightarrow> (a :: Buffer)\<lparr>index := i\<rparr> = (b :: Buffer)\<lparr>index := i\<rparr>"
  by (cases a, cases b) simp

lemma Buffer_index_id: "buf a = buf b \<Longrightarrow> (a :: Buffer) = (b :: Buffer)\<lparr>index := index a\<rparr>"
  by (cases a, cases b) simp

lemma scan_transfer:
  assumes "buf cb' = buf cb2 \<and>
     (e = None \<longrightarrow> 0 \<le> index cb2 \<and> index cb2 \<le> de \<and> de < ge \<and> ge \<le> int (length (buf cb2)) \<and>
        (\<exists>t. DecodeTagAndWireType (cb2\<lparr>index := de\<rparr>) = ((t, WireEndGroup, None), cb2\<lparr>index := ge\<rparr>)))"
    and "buf cb2 = buf (cb :: Buffer)" and "0 \<le> index cb" and "index cb \<le> index cb2"
  shows "buf cb' = buf cb \<and>
     (e = None \<longrightarrow> 0 \<le> index cb \<and> index cb \<le> de \<and> de < ge \<and> ge \<le> int (length (buf cb)) \<and>
        (\<exists>t. DecodeTagAndWireType (cb\<lparr>index := de\<rparr>) = ((t, WireEndGroup, None), cb\<lparr>index := ge\<rparr>)))"
proof -
  from assms(2) have eq: "\<And>i. cb2\<lparr>index := i\<rparr> = cb\<lparr>index := i\<rparr>"
    by (rule Buffer_same_buf)
  from assms show ?thesis unfolding eq by auto
qed

lemma findGroupEnd_loop_props:
  "findGroupEnd_loop cb = ((ge, de, e), cb') \<Longrightarrow>
   buf cb' = buf cb \<and>
   (e = None \<longrightarrow> 0 \<le> index cb \<and> index cb \<le> de \<and> de < ge \<and> ge \<le> int (length (buf cb)) \<and>
      (\<exists>t. DecodeTagAndWireType (cb\<lparr>index := de\<rparr>) = ((t, WireEndGroup, None), cb\<lparr>index := ge\<rparr>)))"
proof (induction cb arbitrary: ge de e cb' rule: findGroupEnd_loop.induct)
  case (1 cb)
  note res = "1.prems"
  obtain t w e1 cb1 where tag: "DecodeTagAndWireType cb = ((t, w, e1), cb1)"
    by (metis prod.exhaust)
  have b1: "buf cb1 = buf cb"
    using DecodeTagAndWireType_buf [of cb] tag by simp
  show ?case
  proof (cases e1)
    case (Some err)
    with res tag have "ge = 0 \<and> de = 0 \<and> e = Some err \<and> cb' = cb1"
      by (auto simp: findGroupEnd_loop.simps)
    with b1 show ?thesis by simp
  next
    case None
    note ok = DecodeTagAndWireType_ok [OF tag [unfolded None]]
    consider "w = 5" | "w = 1" | "w = 0" | "w = 2" | "w = 3" | "w = 4"
      | "w \<noteq> 5" "w \<noteq> 1" "w \<noteq> 0" "w \<noteq> 2" "w \<noteq> 3" "w \<noteq> 4" by auto
    then show ?thesis
    proof cases
      case 1
      obtain es cb2 where sk: "Skip cb1 4 = (es, cb2)" by (metis prod.exhaust)
      show ?thesis
      proof (cases es)
        case (Some a)
        with sk have "cb2 = cb1" by (auto simp: Skip_def split: if_splits)
        with res tag None 1 sk Some have "e = Some a \<and> cb' = cb1"
          by (auto simp: findGroupEnd_loop.simps)
        with b1 show ?thesis by simp
      next
        case None2: None
        with res tag None 1 sk have r: "findGroupEnd_loop cb2 = ((ge, de, e), cb')"
          by (simp add: findGroupEnd_loop.simps)
        note sok = Skip_ok [OF sk [unfolded None2]]
        show ?thesis
          by (rule scan_transfer [OF "1.IH"(1) [OF refl tag [symmetric] refl refl None 1 sk [symmetric] None2 r]])
             (use sok ok b1 in auto)
      qed
    next
      case 2
      obtain es cb2 where sk: "Skip cb1 8 = (es, cb2)" by (metis prod.exhaust)
      from 2 have w: "w \<noteq> 5" by simp
      show ?thesis
      proof (cases es)
        case (Some a)
        with sk have "cb2 = cb1" by (auto simp: Skip_def split: if_splits)
        with res tag None 2 sk Some have "e = Some a \<and> cb' = cb1"
          by (auto simp: findGroupEnd_loop.simps)
        with b1 show ?thesis by simp
      next
        case None2: None
        with res tag None 2 sk have r: "findGroupEnd_loop cb2 = ((ge, de, e), cb')"
          by (simp add: findGroupEnd_loop.simps)
        note sok = Skip_ok [OF sk [unfolded None2]]
        show ?thesis
          by (rule scan_transfer [OF "1.IH"(2) [OF refl tag [symmetric] refl refl None w 2 sk [symmetric] None2 r]])
             (use sok ok b1 in auto)
      qed
    next
      case 3
      from 3 have w: "w \<noteq> 5" "w \<noteq> 1" by simp_all
      show ?thesis
      proof (cases "findGroupEnd_varint (buf cb) (go_int (index cb1 + 10)) (index cb1)")
        case (Inl err)
        with res tag None 3 have "e = Some err \<and> cb' = cb1"
          by (auto simp: findGroupEnd_loop.simps)
        with b1 show ?thesis by simp
      next
        case (Inr i)
        with res tag None 3 have r: "findGroupEnd_loop (cb1\<lparr>index := i + 1\<rparr>) = ((ge, de, e), cb')"
          by (simp add: findGroupEnd_loop.simps)
        show ?thesis
          by (rule scan_transfer [OF "1.IH"(3) [OF refl tag [symmetric] refl refl None w 3 Inr r]])
             (use findGroupEnd_varint_ok [OF Inr] ok b1 in auto)
      qed
    next
      case 4
      from 4 have w: "w \<noteq> 5" "w \<noteq> 1" "w \<noteq> 0" by simp_all
      obtain l el cb2 where dv: "DecodeVarint cb1 = ((l, el), cb2)" by (metis prod.exhaust)
      have b2: "buf cb2 = buf cb" using DecodeVarint_buf [of cb1] dv b1 by simp
      show ?thesis
      proof (cases el)
        case (Some a)
        with res tag None 4 dv have "e = Some a \<and> cb' = cb2"
          by (auto simp: findGroupEnd_loop.simps)
        with b2 show ?thesis by simp
      next
        case None2: None
        obtain es cb3 where sk: "Skip cb2 (sint l) = (es, cb3)" by (metis prod.exhaust)
        show ?thesis
        proof (cases es)
          case (Some a)
          with sk have "cb3 = cb2" by (auto simp: Skip_def split: if_splits)
          with res tag None 4 dv None2 sk Some have "e = Some a \<and> cb' = cb2"
            by (auto simp: findGroupEnd_loop.simps)
          with b2 show ?thesis by simp
        next
          case None3: None
          with res tag None 4 dv None2 sk have r: "findGroupEnd_loop cb3 = ((ge, de, e), cb')"
            by (simp add: findGroupEnd_loop.simps)
          note sok = Skip_ok [OF sk [unfolded None3]]
          note dok = DecodeVarint_ok [OF dv [unfolded None2]]
          show ?thesis
            by (rule scan_transfer [OF "1.IH"(4) [OF refl tag [symmetric] refl refl None w 4
                  dv [symmetric] refl None2 sk [symmetric] None3 r]])
               (use sok dok ok b2 in auto)
        qed
      qed
    next
      case 5
      from 5 have w: "w \<noteq> 5" "w \<noteq> 1" "w \<noteq> 0" "w \<noteq> 2" by simp_all
      obtain g d ei cb2 where in1: "findGroupEnd_loop cb1 = ((g, d, ei), cb2)"
        by (metis prod.exhaust)
      note a = "1.IH"(5) [OF refl tag [symmetric] refl refl None w 5 in1]
      show ?thesis
      proof (cases ei)
        case (Some err)
        with res tag None 5 in1 have "e = Some err \<and> cb' = cb2\<lparr>index := index cb1\<rparr>"
          by (auto simp: findGroupEnd_loop.simps)
        with a b1 show ?thesis by simp
      next
        case None2: None
        with res tag None 5 in1 have
          r: "findGroupEnd_loop (cb2\<lparr>index := index cb1, index := g\<rparr>) = ((ge, de, e), cb')"
          by (simp add: findGroupEnd_loop.simps)
        show ?thesis
          by (rule scan_transfer [OF "1.IH"(6) [OF refl tag [symmetric] refl refl None w 5
                in1 [symmetric] refl refl None2 r]])
             (use a ok b1 None2 in auto)
      qed
    next
      case 6
      from b1 have "cb1 = cb\<lparr>index := index cb1\<rparr>" by (rule Buffer_index_id)
      moreover from res tag None 6 have "ge = index cb1 \<and> de = index cb \<and> e = None \<and> cb' = cb1"
        by (auto simp: findGroupEnd_loop.simps)
      ultimately show ?thesis using tag None ok 6 b1 by auto
    next
      case 7
      with res tag None have "e = Some ErrBadWireType \<and> cb' = cb1"
        by (auto simp: findGroupEnd_loop.simps)
      with b1 show ?thesis by simp
    qed
  qed
qed


lemma findGroupEnd_restores: "snd (findGroupEnd cb) = cb"
proof -
  obtain r cb' where l: "findGroupEnd_loop cb = (r, cb')" by (metis prod.exhaust)
  obtain ge de e where r: "r = (ge, de, e)" by (metis prod.exhaust)
  from findGroupEnd_loop_props [OF l [unfolded r]] have "buf cb' = buf cb" by simp
  then have "cb'\<lparr>index := index cb\<rparr> = cb"
    using Buffer_index_id [of cb cb'] by simp
  with l show ?thesis by (simp add: findGroupEnd_def)
qed

lemma findGroupEnd_ok:
  assumes "fst (findGroupEnd cb) = (ge, de, None)"
  shows "0 \<le> index cb \<and> index cb \<le> de \<and> de < ge \<and> ge \<le> int (length (buf cb)) \<and>
      (\<exists>t. DecodeTagAndWireType (cb\<lparr>index := de\<rparr>) = ((t, WireEndGroup, None), cb\<lparr>index := ge\<rparr>))"
proof -
  obtain cb' where l: "findGroupEnd_loop cb = ((ge, de, None), cb')"
    using assms by (cases "findGroupEnd_loop cb") (simp add: findGroupEnd_def)
  from findGroupEnd_loop_props [OF l] show ?thesis by simp
qed

lemma findGroupEnd_eq: "findGroupEnd cb = (fst (findGroupEnd cb), cb)"
  using findGroupEnd_restores [of cb] by (metis prod.collapse)

lemma SkipGroup_ok:
  "fst (findGroupEnd cb) = (ge, de, None) \<Longrightarrow> SkipGroup cb = (None, cb\<lparr>index := ge\<rparr>)"
  by (subst SkipGroup_def, subst findGroupEnd_eq) simp

lemma SkipGroup_err:
  "fst (findGroupEnd cb) = (ge, de, Some err) \<Longrightarrow> SkipGroup cb = (Some err, cb)"
  by (subst SkipGroup_def, subst findGroupEnd_eq) simp

lemma go_copy_prefix:
  "n \<le> length src \<Longrightarrow> go_copy (replicate n 0) src = take n src"
  by (simp add: go_copy_def)

lemma ReadGroup_ok:
  assumes "fst (findGroupEnd cb) = (ge, de, None)"
  shows "ReadGroup cb alloc = ((slice (buf cb) (index cb) de, None), cb\<lparr>index := ge\<rparr>)"
proof -
  from findGroupEnd_ok [OF assms]
  have "0 \<le> index cb" "index cb \<le> de" "de < ge" "ge \<le> int (length (buf cb))"
    by simp_all
  then have "nat (de - index cb) \<le> length (drop (nat (index cb)) (buf cb))"
    by simp
  then have "go_copy (replicate (nat (de - index cb)) 0) (drop (nat (index cb)) (buf cb))
      = slice (buf cb) (index cb) de"
    by (simp add: go_copy_prefix slice_def)
  with assms show ?thesis
    by (subst ReadGroup_def, subst findGroupEnd_eq) (simp add: Let_def)
qed

lemma ReadGroup_err:
  "fst (findGroupEnd cb) = (ge, de, Some err) \<Longrightarrow> ReadGroup cb alloc = (([], Some err), cb)"
  by (subst ReadGroup_def, subst findGroupEnd_eq) simp

lemma findGroupEnd_loop_StartGroup:
  assumes "DecodeTagAndWireType cb = ((t, WireStartGroup, None), cb1)"
  shows "findGroupEnd_loop cb =
     (case SkipGroup cb1 of
        (Some err, cb2) \<Rightarrow> ((0, 0, Some err), cb2)
      | (None, cb2) \<Rightarrow> findGroupEnd_loop cb2)"
proof -
  obtain g d ei cb2 where in1: "findGroupEnd_loop cb1 = ((g, d, ei), cb2)"
    by (metis prod.exhaust)
  then have sk: "SkipGroup cb1 =
      (case ei of Some err \<Rightarrow> (Some err, cb2\<lparr>index := index cb1\<rparr>)
       | None \<Rightarrow> (None, cb2\<lparr>index := index cb1, index := g\<rparr>))"
    by (simp add: SkipGroup_def findGroupEnd_def split: option.splits)
  show ?thesis
    by (subst findGroupEnd_loop.simps) (simp add: assms in1 sk split: option.splits)
qed



section \<open>The cursor invariant\<close>

lemma cursor_step_refl: "cursor_ok cb \<Longrightarrow> cursor_step cb cb"
  by (simp add: cursor_ok_def cursor_step_def)

lemma DecodeVarint_step: "cursor_ok cb \<Longrightarrow> cursor_step cb (snd (DecodeVarint cb))"
proof -
  assume ok: "cursor_ok cb"
  obtain x e cb' where dv: "DecodeVarint cb = ((x, e), cb')" by (metis prod.exhaust)
  show ?thesis
  proof (cases e)
    case None
    with dv DecodeVarint_ok [of cb x cb'] show ?thesis by (simp add: cursor_step_def)
  next
    case (Some err)
    with dv DecodeVarint_err [of cb x err cb'] ok show ?thesis by (simp add: cursor_step_refl)
  qed
qed

lemma DecodeTagAndWireType_snd: "snd (DecodeTagAndWireType cb) = snd (DecodeVarint cb)"
  by (simp add: DecodeTagAndWireType_def Let_def split: prod.splits option.splits)

lemma DecodeFixed64_step: "cursor_ok cb \<Longrightarrow> cursor_step cb (snd (DecodeFixed64 cb))"
  by (simp add: DecodeFixed64_def Let_def cursor_ok_def cursor_step_def)

lemma DecodeFixed32_step: "cursor_ok cb \<Longrightarrow> cursor_step cb (snd (DecodeFixed32 cb))"
  by (simp add: DecodeFixed32_def Let_def cursor_ok_def cursor_step_def)

lemma DecodeRawBytes_step:
  assumes "cursor_ok cb"
  shows "cursor_step cb (snd (DecodeRawBytes cb alloc))"
proof -
  obtain n e cb1 where dv: "DecodeVarint cb = ((n, e), cb1)" by (metis prod.exhaust)
  from DecodeVarint_step [OF assms] dv have s: "cursor_step cb cb1" by simp
  show ?thesis
  proof (cases e)
    case (Some err)
    with dv s show ?thesis by (simp add: DecodeRawBytes_def)
  next
    case None
    with dv s show ?thesis
      by (auto simp: DecodeRawBytes_def Let_def cursor_step_def)
  qed
qed

lemma SkipGroup_step:
  assumes "cursor_ok cb"
  shows "cursor_step cb (snd (SkipGroup cb))"
proof -
  obtain ge de e where f: "fst (findGroupEnd cb) = (ge, de, e)" by (metis prod.exhaust)
  show ?thesis
  proof (cases e)
    case None
    with f findGroupEnd_ok [of cb ge de] SkipGroup_ok [of cb ge de] show ?thesis
      by (simp add: cursor_step_def)
  next
    case (Some err)
    with f SkipGroup_err [of cb ge de err] assms show ?thesis
      by (simp add: cursor_step_refl)
  qed
qed

lemma ReadGroup_step:
  assumes "cursor_ok cb"
  shows "cursor_step cb (snd (ReadGroup cb alloc))"
proof -
  obtain ge de e where f: "fst (findGroupEnd cb) = (ge, de, e)" by (metis prod.exhaust)
  show ?thesis
  proof (cases e)
    case None
    with f findGroupEnd_ok [of cb ge de] ReadGroup_ok [of cb ge de alloc] show ?thesis
      by (simp add: cursor_step_def)
  next
    case (Some err)
    with f ReadGroup_err [of cb ge de err alloc] assms show ?thesis
      by (simp add: cursor_step_refl)
  qed
qed

text \<open>
  Claim C9. Every decode operation on the cursor (\<open>DecodeVarint\<close>,
  \<open>DecodeTagAndWireType\<close>, \<open>DecodeFixed32\<close>, \<open>DecodeFixed64\<close>, \<open>DecodeRawBytes\<close>,
  \<open>ReadGroup\<close>, \<open>SkipGroup\<close>, and the scan \<open>findGroupEnd\<close>) keeps
  \<open>0 \<le> position \<le> length\<close> and leaves the byte sequence as it is.
\<close>

theorem C9_cursor_invariant:
  assumes "cursor_ok cb"
  shows "cursor_step cb (snd (DecodeVarint cb)) \<and>
         cursor_step cb (snd (DecodeTagAndWireType cb)) \<and>
         cursor_step cb (snd (DecodeFixed32 cb)) \<and>
         cursor_step cb (snd (DecodeFixed64 cb)) \<and>
         cursor_step cb (snd (DecodeRawBytes cb alloc)) \<and>
         cursor_step cb (snd (ReadGroup cb alloc)) \<and>
         cursor_step cb (snd (SkipGroup cb)) \<and>
         cursor_step cb (snd (findGroupEnd cb))"
  using assms
  by (simp add: DecodeVarint_step DecodeTagAndWireType_snd DecodeFixed32_step DecodeFixed64_step
      DecodeRawBytes_step ReadGroup_step SkipGroup_step findGroupEnd_restores cursor_step_refl)

theorem C9_witness:
  "cursor_ok \<lparr>buf = [0x0B, 0x0C, 0x02, 0x07], index = 0\<rparr> \<and>
   snd (DecodeRawBytes \<lparr>buf = [0x0B, 0x0C, 0x02, 0x07], index = 2\<rparr> False)
     = \<lparr>buf = [0x0B, 0x0C, 0x02, 0x07], index = 3\<rparr> \<and>
   cursor_step \<lparr>buf = [0x0B, 0x0C, 0x02, 0x07], index = 0\<rparr>
     (snd (DecodeVarint \<lparr>buf = [0x0B, 0x0C, 0x02, 0x07], index = 0\<rparr>)) \<and>
   cursor_step \<lparr>buf = [0x0B, 0x0C, 0x02, 0x07], index = 0\<rparr>
     (snd (DecodeTagAndWireType \<lparr>buf = [0x0B, 0x0C, 0x02, 0x07], index = 0\<rparr>)) \<and>
   cursor_step \<lparr>buf = [0x0B, 0x0C, 0x02, 0x07], index = 0\<rparr>
     (snd (DecodeFixed32 \<lparr>buf = [0x0B, 0x0C, 0x02, 0x07], index = 0\<rparr>)) \<and>
   cursor_step \<lparr>buf = [0x0B, 0x0C, 0x02, 0x07], index = 0\<rparr>
     (snd (DecodeFixed64 \<lparr>buf = [0x0B, 0x0C, 0x02, 0x07], index = 0\<rparr>)) \<and>
   cursor_step \<lparr>buf = [0x0B, 0x0C, 0x02, 0x07], index = 0\<rparr>
     (snd (DecodeRawBytes \<lparr>buf = [0x0B, 0x0C, 0x02, 0x07], index = 0\<rparr> True)) \<and>
   cursor_step \<lparr>buf = [0x0B, 0x0C, 0x02, 0x07], index = 0\<rparr>
     (snd (ReadGroup \<lparr>buf = [0x0B, 0x0C, 0x02, 0x07], index = 0\<rparr> True)) \<and>
   cursor_step \<lparr>buf = [0x0B, 0x0C, 0x02, 0x07], index = 0\<rparr>
     (snd (SkipGroup \<lparr>buf = [0x0B, 0x0C, 0x02, 0x07], index = 0\<rparr>)) \<and>
   cursor_step \<lparr>buf = [0x0B, 0x0C, 0x02, 0x07], index = 0\<rparr>
     (snd (findGroupEnd \<lparr>buf = [0x0B, 0x0C, 0x02, 0x07], index = 0\<rparr>))"
proof -
  have ok: "cursor_ok \<lparr>buf = [0x0B, 0x0C, 0x02, 0x07], index = 0\<rparr>"
    by (simp add: cursor_ok_def)
  have rb: "snd (DecodeRawBytes \<lparr>buf = [0x0B, 0x0C, 0x02, 0x07], index = 2\<rparr> False)
     = \<lparr>buf = [0x0B, 0x0C, 0x02, 0x07], index = 3\<rparr>"
    by (simp add: DecodeRawBytes_def DecodeVarint_def DecodeVarint_loop_unfold go_int_def)
  from ok rb C9_cursor_invariant [OF ok, of True] show ?thesis by simp
qed

section \<open>Round trips through the encodings\<close>

lemma unat_drop_bit7: "unat (drop_bit 7 (x :: uint64)) = unat x div 128"
  by (simp add: unat_drop_bit_eq drop_bit_eq_div unat_div)



lemma and_127: "(x :: 'a::len word) AND 0x7F = take_bit 7 x"
  by (simp add: take_bit_eq_mask mask_eq_exp_minus_1)

lemma u64_lt128: "(x :: uint64) < 0x80 \<longleftrightarrow> take_bit 7 x = x"
  using mask_eq_iff [of x 7] word_2p_lem [of 7 x] by (simp add: take_bit_eq_mask word_size)

lemma byte_lt128_take: "(b :: byte) < 0x80 \<longleftrightarrow> take_bit 7 b = b"
  using mask_eq_iff [of b 7] word_2p_lem [of 7 b] by (simp add: take_bit_eq_mask word_size)

lemma byte_lt128: "(b :: byte) < 0x80 \<longleftrightarrow> \<not> bit b 7"
proof -
  have "take_bit 7 b = b \<longleftrightarrow> \<not> bit b 7"
  proof
    assume "take_bit 7 b = b"
    then show "\<not> bit b 7" by (metis bit_take_bit_iff less_irrefl)
  next
    assume n: "\<not> bit b 7"
    show "take_bit 7 b = b"
    proof (rule bit_word_eqI)
      fix k assume "k < LENGTH(8)"
      then consider "k = 7" | "k < 7" by fastforce
      then show "bit (take_bit 7 b) k = bit b k"
        using n by cases (simp_all add: bit_simps)
    qed
  qed
  then show ?thesis by (simp add: byte_lt128_take)
qed

lemma split7: "take_bit 7 x OR push_bit 7 (drop_bit 7 x) = (x :: uint64)"
proof (rule bit_word_eqI)
  fix k assume "k < LENGTH(64)"
  then show "bit (take_bit 7 x OR push_bit 7 (drop_bit 7 x)) k = bit x k"
    by (cases "k < 7") (auto simp: bit_simps)
qed

lemma bit_128: "bit (128 :: 'a::len word) n \<longleftrightarrow> n = 7 \<and> 7 < LENGTH('a)"
  using bit_exp_iff [of 7 n, where ?'a = "'a word"] by auto

lemma bit_128_int: "bit (128 :: int) n \<longleftrightarrow> n = 7"
  using bit_exp_iff [of 7 n, where ?'a = int] by simp

lemma take7_bits: "take_bit 7 x = (x :: uint64) \<Longrightarrow> bit x n \<Longrightarrow> n < 7"
  by (metis bit_take_bit_iff)

lemma last_byte: "take_bit 7 x = (x :: uint64) \<Longrightarrow> take_bit 7 (ucast (ucast x :: byte) :: uint64) = x"
  by (rule bit_word_eqI) (auto simp: bit_simps dest: take7_bits)

lemma cont_byte: "take_bit 7 (ucast (ucast (take_bit 7 x) OR 0x80 :: byte) :: uint64) = take_bit 7 (x :: uint64)"
  by (rule bit_word_eqI) (auto simp: bit_simps bit_128 bit_128_int)

lemma cont_byte_bit: "bit (ucast (take_bit 7 (x :: uint64)) OR 0x80 :: byte) 7"
  by (auto simp: bit_simps bit_128)

lemma last_byte_bit: "take_bit 7 x = (x :: uint64) \<Longrightarrow> \<not> bit (ucast x :: byte) 7"
  by (auto simp: bit_simps dest: take7_bits)


lemma drop_Cons_nth:
  assumes "0 \<le> i" "drop (nat i) xs = y # ys"
  shows "i < int (length xs)" "xs ! nat i = y" "drop (nat (i + 1)) xs = ys"
proof -
  from assms(2) have l: "nat i < length xs"
    by (metis drop_all list.distinct(1) not_less)
  with assms(1) show "i < int (length xs)" by simp
  from l assms(2) show "xs ! nat i = y"
    by (metis hd_drop_conv_nth list.sel(1))
  from assms(1) have "nat (i + 1) = Suc (nat i)" by simp
  with assms(2) show "drop (nat (i + 1)) xs = ys"
    by (metis drop_Suc list.sel(3) tl_drop)
qed

lemma push_split7:
  "push_bit shift (take_bit 7 m) OR push_bit (shift + 7) (drop_bit 7 m) = push_bit shift (m :: uint64)"
proof -
  have "push_bit (shift + 7) (drop_bit 7 m) = push_bit shift (push_bit 7 (drop_bit 7 m))"
    by (simp add: push_bit_add)
  then have "push_bit shift (take_bit 7 m) OR push_bit (shift + 7) (drop_bit 7 m)
      = push_bit shift (take_bit 7 m OR push_bit 7 (drop_bit 7 m))"
    by (simp add: push_bit_or)
  then show ?thesis by (simp only: split7)
qed

lemma DecodeVarint_loop_encode:
  "0 \<le> i \<Longrightarrow> drop (nat i) (buf cb) = spec_EncodeVarint m @ rest \<Longrightarrow>
   unat m < 2 ^ (64 - shift) \<Longrightarrow> shift < 64 \<Longrightarrow>
   DecodeVarint_loop cb shift i x =
     ((x OR push_bit shift m, None), cb\<lparr>index := i + int (length (spec_EncodeVarint m))\<rparr>)"
proof (induction m arbitrary: shift i x rule: spec_EncodeVarint.induct)
  case (1 m)
  show ?case
  proof (cases "m \<ge> 0x80")
    case True
    define b :: byte where "b = ucast (take_bit 7 m) OR 0x80"
    from True have enc: "spec_EncodeVarint m = b # spec_EncodeVarint (drop_bit 7 m)"
      by (subst spec_EncodeVarint.simps) (simp add: b_def and_127)
    from "1.prems"(2) have d: "drop (nat i) (buf cb) = b # (spec_EncodeVarint (drop_bit 7 m) @ rest)"
      by (simp add: enc)
    note n = drop_Cons_nth [OF "1.prems"(1) d]
    have nb: "\<not> b < 0x80"
      by (simp add: byte_lt128 b_def cont_byte_bit)
    have low: "ucast b AND 0x7F = take_bit 7 m"
      by (simp add: and_127 b_def cont_byte)
    from True have m128: "128 \<le> unat m" by (simp add: word_le_nat_alt)
    have s57: "shift < 57"
    proof (rule ccontr)
      assume "\<not> shift < 57"
      then have "64 - shift \<le> 7" by simp
      then have "(2::nat) ^ (64 - shift) \<le> 2 ^ 7" by (rule power_increasing) simp
      with "1.prems"(3) m128 show False by simp
    qed
    then have e: "64 - shift = (57 - shift) + 7" by simp
    have "(2::nat) ^ (64 - shift) = 2 ^ (57 - shift) * 2 ^ 7"
      by (simp only: e power_add)
    with "1.prems"(3) have "unat m < 2 ^ (57 - shift) * 128" by simp
    then have "unat m div 128 < 2 ^ (57 - shift)"
      by (rule less_mult_imp_div_less)
    then have bound: "unat (drop_bit 7 m) < 2 ^ (64 - (shift + 7))"
      by (simp add: unat_drop_bit7)
    from "1.prems"(1) have i1: "0 \<le> i + 1" by simp
    from s57 have s64: "shift + 7 < 64" by simp
    have ih: "DecodeVarint_loop cb (shift + 7) (i + 1) (x OR push_bit shift (take_bit 7 m)) =
        ((x OR push_bit shift (take_bit 7 m) OR push_bit (shift + 7) (drop_bit 7 m), None),
         cb\<lparr>index := i + 1 + int (length (spec_EncodeVarint (drop_bit 7 m)))\<rparr>)"
      using "1.IH" [of "i + 1" "shift + 7" "x OR push_bit shift (take_bit 7 m)"] True i1 n(3) bound s64
      by (simp add: or.assoc)
    have "DecodeVarint_loop cb shift i x =
        DecodeVarint_loop cb (shift + 7) (i + 1) (x OR push_bit shift (take_bit 7 m))"
      using "1.prems"(1,4) n(1,2) nb low
      by (subst DecodeVarint_loop_unfold) simp
    also note ih
    finally show ?thesis
      by (simp add: enc or.assoc push_split7)
  next
    case False
    then have lt: "m < 0x80" by simp
    then have t: "take_bit 7 m = m" by (simp add: u64_lt128)
    from False have enc: "spec_EncodeVarint m = [ucast m]"
      by (subst spec_EncodeVarint.simps) simp
    from "1.prems"(2) have d: "drop (nat i) (buf cb) = ucast m # rest"
      by (simp add: enc)
    note n = drop_Cons_nth [OF "1.prems"(1) d]
    have nb: "(ucast m :: byte) < 0x80"
      by (simp add: byte_lt128 last_byte_bit [OF t])
    have low: "ucast (ucast m :: byte) AND 0x7F = m"
      by (simp add: and_127 last_byte [OF t])
    show ?thesis
      using "1.prems"(1,4) n(1,2) nb low
      by (subst DecodeVarint_loop_unfold) (simp add: enc)
  qed
qed

lemma DecodeVarint_encode:
  assumes "0 \<le> index cb" "remaining cb = spec_EncodeVarint n @ rest"
  shows "DecodeVarint cb =
     ((n, None), cb\<lparr>index := index cb + int (length (spec_EncodeVarint n))\<rparr>)"
proof -
  have "unat n < 2 ^ (64 - 0)" using unsigned_less [of n, where ?'a = nat] by simp
  with assms show ?thesis
    unfolding DecodeVarint_def remaining_def
    using DecodeVarint_loop_encode [of "index cb" cb n rest 0 0] by simp
qed

lemma and_7: "(x :: 'a::len word) AND 7 = take_bit 3 x"
  by (simp add: take_bit_eq_mask mask_eq_exp_minus_1)

lemma wt_take3: "(wt :: 8 word) \<le> 5 \<Longrightarrow> take_bit 3 wt = wt"
proof -
  assume "wt \<le> 5"
  then have "wt < 8" by (simp add: word_le_nat_alt word_less_nat_alt)
  then show ?thesis
    using mask_eq_iff [of wt 3] word_2p_lem [of 3 wt] by (simp add: take_bit_eq_mask word_size)
qed

lemma wt_bits: "(wt :: 8 word) \<le> 5 \<Longrightarrow> bit wt n \<Longrightarrow> n < 3"
  by (metis wt_take3 bit_take_bit_iff)

lemma tag_wire:
  "wt \<le> 5 \<Longrightarrow> ucast ((push_bit 3 (ucast (fn :: int32) :: uint64) OR ucast wt) AND 7) = (wt :: 8 word)"
  unfolding and_7
  by (rule bit_word_eqI) (auto simp: bit_simps dest: wt_bits)

lemma tag_num:
  "wt \<le> 5 \<Longrightarrow> drop_bit 3 (push_bit 3 (ucast (fn :: int32) :: uint64) OR ucast (wt :: 8 word)) = ucast fn"
  by (rule bit_word_eqI) (auto simp: bit_simps dest: wt_bits bit_imp_le_length)

lemma fn_back: "ucast (ucast (fn :: int32) :: uint64) = fn"
  by (rule bit_word_eqI) (auto simp: bit_simps dest: bit_imp_le_length)

lemma fn_range: "1 \<le> sint (fn :: int32) \<Longrightarrow> \<not> (ucast fn :: uint64) > 0x7FFFFFFF"
proof -
  assume "1 \<le> sint fn"
  then have nb: "\<not> bit fn 31" using bit_last_iff [of fn] by simp
  have "take_bit 31 fn = fn"
  proof (rule bit_word_eqI)
    fix k assume "k < LENGTH(32)"
    then consider "k = 31" | "k < 31" by fastforce
    then show "bit (take_bit 31 fn) k = bit fn k"
      using nb by cases (simp_all add: bit_simps)
  qed
  then have "unat fn < 2 ^ 31"
    by (metis unsigned_take_bit_eq take_bit_nat_less_exp)
  then show ?thesis
    by (simp add: word_less_nat_alt unsigned_ucast_eq take_bit_nat_eq_self)
qed

lemma DecodeTagAndWireType_of_varint:
  "DecodeVarint cb = ((v, None), cb') \<Longrightarrow> \<not> drop_bit 3 v > 0x7FFFFFFF \<Longrightarrow>
   DecodeTagAndWireType cb = ((ucast (drop_bit 3 v), ucast (v AND 7), None), cb')"
  by (simp add: DecodeTagAndWireType_def Let_def)

text \<open>
  Claim C4. For every unsigned 64-bit value \<open>n\<close>, \<open>DecodeVarint\<close> on a buffer whose
  remaining bytes begin with the canonical encoding of \<open>n\<close> returns \<open>n\<close> with no error and
  moves the position forward by the number of bytes of that encoding.
\<close>

theorem C4_DecodeVarint_roundtrip:
  assumes "0 \<le> index cb" and "remaining cb = spec_EncodeVarint n @ rest"
  shows "DecodeVarint cb =
     ((n, None), cb\<lparr>index := index cb + int (length (spec_EncodeVarint n))\<rparr>)"
  using assms by (rule DecodeVarint_encode)

text \<open>
  The theorem at \<open>n = 300\<close>, encoded as \<open>AC 02\<close>, read from position 1 of four bytes.
\<close>

lemma enc_300: "spec_EncodeVarint 300 = [0xAC, 0x02]"
  by (simp add: spec_EncodeVarint.simps)

theorem C4_witness:
  "0 \<le> index \<lparr>buf = [0x08, 0xAC, 0x02, 0x07], index = 1\<rparr> \<and>
   remaining \<lparr>buf = [0x08, 0xAC, 0x02, 0x07], index = 1\<rparr> = spec_EncodeVarint 300 @ [0x07] \<and>
   spec_EncodeVarint 300 = [0xAC, 0x02] \<and>
   DecodeVarint \<lparr>buf = [0x08, 0xAC, 0x02, 0x07], index = 1\<rparr> =
     ((300, None), \<lparr>buf = [0x08, 0xAC, 0x02, 0x07], index = 3\<rparr>)"
  using C4_DecodeVarint_roundtrip [of "\<lparr>buf = [0x08, 0xAC, 0x02, 0x07], index = 1\<rparr>" 300 "[0x07]"]
  by (simp add: remaining_def enc_300)

text \<open>
  Claim C8. For every field number from 1 to the largest signed 32-bit value and every
  wire type from 0 to 5, \<open>DecodeTagAndWireType\<close> on the encoding of
  \<open>(fieldNumber << 3) | wireType\<close> returns that field number and that wire type with no
  error.
\<close>

theorem C8_tag_roundtrip:
  assumes "1 \<le> sint fieldNumber" and "wireType \<le> 5" and "0 \<le> index cb"
    and "remaining cb = spec_EncodeTag fieldNumber wireType @ rest"
  shows "DecodeTagAndWireType cb =
     ((fieldNumber, wireType, None),
      cb\<lparr>index := index cb + int (length (spec_EncodeTag fieldNumber wireType))\<rparr>)"
proof -
  from assms(4) have "DecodeVarint cb =
     ((push_bit 3 (ucast fieldNumber) OR ucast wireType, None),
      cb\<lparr>index := index cb + int (length (spec_EncodeTag fieldNumber wireType))\<rparr>)"
    unfolding spec_EncodeTag_def by (rule DecodeVarint_encode [OF assms(3)])
  moreover have "\<not> drop_bit 3 (push_bit 3 (ucast fieldNumber) OR ucast wireType :: uint64) > 0x7FFFFFFF"
    unfolding tag_num [OF assms(2)] by (rule fn_range [OF assms(1)])
  ultimately have "DecodeTagAndWireType cb =
     ((ucast (drop_bit 3 (push_bit 3 (ucast fieldNumber) OR ucast wireType :: uint64)),
       ucast ((push_bit 3 (ucast fieldNumber) OR ucast wireType :: uint64) AND 7), None),
      cb\<lparr>index := index cb + int (length (spec_EncodeTag fieldNumber wireType))\<rparr>)"
    by (rule DecodeTagAndWireType_of_varint)
  then show ?thesis
    by (simp only: tag_wire [OF assms(2)] tag_num [OF assms(2)] fn_back)
qed

text \<open>
  The theorem at field number 1000 and wire type 2, the tag \<open>C2 3E\<close>.
\<close>

lemma enc_tag_1000_2: "spec_EncodeTag 1000 2 = [0xC2, 0x3E]"
  by (simp add: spec_EncodeTag_def spec_EncodeVarint.simps)

theorem C8_witness:
  "1 \<le> sint (1000 :: int32) \<and> (2 :: WireType) \<le> 5 \<and>
   0 \<le> index \<lparr>buf = [0xC2, 0x3E, 0x00], index = 0\<rparr> \<and>
   remaining \<lparr>buf = [0xC2, 0x3E, 0x00], index = 0\<rparr> = spec_EncodeTag 1000 2 @ [0x00] \<and>
   DecodeTagAndWireType \<lparr>buf = [0xC2, 0x3E, 0x00], index = 0\<rparr> =
     ((1000, 2, None), \<lparr>buf = [0xC2, 0x3E, 0x00], index = 2\<rparr>)"
  using C8_tag_roundtrip [of 1000 2 "\<lparr>buf = [0xC2, 0x3E, 0x00], index = 0\<rparr>" "[0x00]"]
  by (simp add: remaining_def enc_tag_1000_2)

section \<open>The iterators\<close>






text \<open>
  Claim C1. \<open>MessageEach\<close> compares the error of \<open>DecodeTagAndWireType\<close> with \<open>io.EOF\<close> only
  and then overwrites it. On the six bytes \<open>80 80 80 80 40 01\<close> the tag is the
  variable-length integer \<open>2 ^ 34\<close>, whose field number \<open>2 ^ 31\<close> is above the largest signed
  32-bit value: \<open>DecodeTagAndWireType\<close> fails with the tag-out-of-range error, and
  \<open>MessageEach\<close> goes on, reads the value 1, gives the callback field number 0 and returns
  no error.
\<close>

theorem C1_MessageEach_drops_tag_error:
  "DecodeTagAndWireType \<lparr>buf = [0x80, 0x80, 0x80, 0x80, 0x40, 0x01], index = 0\<rparr>
     = ((0, 0, Some (ErrTagOutOfRange 0x80000000)),
        \<lparr>buf = [0x80, 0x80, 0x80, 0x80, 0x40, 0x01], index = 5\<rparr>) \<and>
   MessageEach \<lparr>buf = [0x80, 0x80, 0x80, 0x80, 0x40, 0x01], index = 0\<rparr> record_fields []
     = Some (None, \<lparr>buf = [0x80, 0x80, 0x80, 0x80, 0x40, 0x01], index = 6\<rparr>,
             [(0, \<lparr>WireType = 0, Number = 1, Bytes = []\<rparr>)])"
  by (simp add: MessageEach_def MessageEach_loop.simps EOF_def DecodeTagAndWireType_def
      DecodeVarint_def DecodeVarint_loop_unfold readValueFromBuffer_def record_fields_def)

end
